theory Spec2Isabelle
  imports Main "HOL-Library.Word"
begin

section \<open>arclib: \<open>thread_pool\<close> and \<open>run_in_parallel\<close> (include/arclib/thread.h)\<close>

text \<open>
  The pool's shared members (\<open>_job_queue\<close>, \<open>_num_jobs\<close>, \<open>_running\<close>) are only touched
  while \<open>_mtx\<close> is held, and \<open>_num_workers\<close> is a \<open>std::atomic\<close>. A step of the model
  is therefore what one thread does to these members while it holds the lock, and an
  execution is a sequence of such steps taken by the calling thread and by the worker
  threads in any order. \<open>cv.wait(lock, pred)\<close> is \<open>while (!pred()) cv.wait(lock)\<close>: a
  thread passes it exactly when it holds the lock and finds \<open>pred()\<close> true, and is
  blocked otherwise. Job bodies run with the lock released and do not touch the pool.
\<close>

type_synonym uint32 = "32 word"
type_synonym uint64 = "64 word"

subsection \<open>Data\<close>

text \<open>The ways an execution stops abnormally: a failed \<open>assert\<close>, the integer
  division by zero, and \<open>_workers[i]\<close> read through a null \<open>_workers\<close>.\<close>

datatype error = AssertionFailure | DivisionByZero | NullDereference

text \<open>The result of one step: it completes, it is blocked (a wait whose condition is
  false, a \<open>join\<close> on a thread that has not left its loop), or it fails.\<close>

datatype 'a outcome = Done 'a | Blocked | Failed error

text \<open>Where a thread running \<open>work_loop\<close> stands: at \<open>_cv_workers.wait\<close> (also when it
  has just been created and has not yet taken the lock), running \<open>job()\<close> with the lock
  released, or past the \<open>break\<close>.\<close>

datatype 'j worker = Waiting | Executing 'j | Exited

text \<open>The members of \<open>class thread_pool\<close>. \<open>p_workers\<close> is the pointer \<open>_workers\<close>:
  \<open>None\<close> is \<open>nullptr\<close>, \<open>Some hs\<close> an array whose handles are indices into the
  threads of the system. The mutex and the two condition variables are the step
  granularity and the \<open>Blocked\<close> outcome.\<close>

record 'j thread_pool =
  p_num_workers :: uint32
  p_num_jobs :: uint32
  p_workers :: "nat list option"
  p_job_queue :: "'j list"
  p_running :: bool

text \<open>The pool together with the threads that \<open>start\<close> has created for it, and the
  jobs whose \<open>job()\<close> call has returned, in the order they returned.\<close>

record 'j system = "'j thread_pool" +
  threads :: "'j worker list"
  finished :: "'j list"

subsection \<open>The pool's member functions\<close>

text \<open>\<open>thread_pool()\<close>: \<open>_num_workers(0), _num_jobs(0), _workers(nullptr), _running(false)\<close>.\<close>

definition init :: "'j system" where
  "init = \<lparr>p_num_workers = 0, p_num_jobs = 0, p_workers = None, p_job_queue = [],
           p_running = False, threads = [], finished = []\<rparr>"

text \<open>\<open>start\<close> holds the lock from its first line to its last, so the new threads take
  their first step only after it has returned.\<close>

definition start :: "uint32 \<Rightarrow> 'j system \<Rightarrow> 'j system" where
  "start n s =
     s\<lparr>p_num_workers := n,
       p_workers := Some [length (threads s) ..< length (threads s) + unat n],
       threads := threads s @ replicate (unat n) Waiting,
       p_running := True\<rparr>"

definition enqueue_job :: "'j \<Rightarrow> 'j system \<Rightarrow> 'j system" where
  "enqueue_job job s =
     s\<lparr>p_job_queue := p_job_queue s @ [job], p_num_jobs := p_num_jobs s + 1\<rparr>"

text \<open>\<open>wait\<close> passes \<open>_cv_wait.wait(lock, [&]() { return _num_jobs == 0; })\<close> only when
  the counter is zero.\<close>

definition wait :: "'j system \<Rightarrow> 'j system outcome" where
  "wait s = (if p_num_jobs s = 0 then Done s else Blocked)"

definition num_workers :: "'j system \<Rightarrow> uint32" where
  "num_workers s = p_num_workers s"

text \<open>\<open>terminate\<close>, first critical section: \<open>_running = false\<close>, then \<open>notify_all\<close>.\<close>

definition terminate_flag :: "'j system \<Rightarrow> 'j system" where
  "terminate_flag s = s\<lparr>p_running := False\<rparr>"

text \<open>\<open>for (uint32 i = 0; i < _num_workers; i++) { _workers[i].join(); }\<close> over the
  indices still to visit. \<open>join\<close> returns once the thread has left \<open>work_loop\<close>.\<close>

fun join_loop :: "'j worker list \<Rightarrow> nat list option \<Rightarrow> nat list \<Rightarrow> unit outcome" where
  "join_loop ths ws [] = Done ()"
| "join_loop ths ws (i # rest) =
     (case ws of
        None \<Rightarrow> Failed NullDereference
      | Some hs \<Rightarrow>
          if i < length hs \<and> hs ! i < length ths \<and> ths ! (hs ! i) = Exited
          then join_loop ths ws rest
          else Blocked)"

text \<open>\<open>terminate\<close>, the rest: the joins, \<open>delete[] _workers\<close> and \<open>_workers = nullptr\<close>.
  \<open>_num_workers\<close> is not assigned.\<close>

definition terminate_join :: "'j system \<Rightarrow> 'j system outcome" where
  "terminate_join s =
     (case join_loop (threads s) (p_workers s) [0 ..< unat (p_num_workers s)] of
        Done _ \<Rightarrow> Done (s\<lparr>p_workers := None\<rparr>)
      | Blocked \<Rightarrow> Blocked
      | Failed e \<Rightarrow> Failed e)"

subsection \<open>\<open>work_loop\<close>\<close>

text \<open>The thread \<open>t\<close> passes \<open>_cv_workers.wait(lock, !_running || _num_jobs != 0)\<close> and
  runs to its next release of the lock: with \<open>_running\<close> set it asserts that the queue is
  not empty, takes the front job and unlocks to run it; otherwise it breaks.\<close>

definition work_wake :: "nat \<Rightarrow> 'j system \<Rightarrow> 'j system outcome" where
  "work_wake t s =
     (if t < length (threads s) \<and> threads s ! t = Waiting
         \<and> (\<not> p_running s \<or> p_num_jobs s \<noteq> 0)
      then
        if p_running s then
          (case p_job_queue s of
             [] \<Rightarrow> Failed AssertionFailure
           | job # q \<Rightarrow> Done (s\<lparr>p_job_queue := q, threads := (threads s)[t := Executing job]\<rparr>))
        else Done (s\<lparr>threads := (threads s)[t := Exited]\<rparr>)
      else Blocked)"

text \<open>\<open>job()\<close> returns on thread \<open>t\<close>: \<open>lock.lock(); _num_jobs--; _cv_wait.notify_one()\<close>,
  and the thread is back at the head of the loop. In the source the thread still holds
  the lock when it evaluates the wait condition next; the model makes that a step of its
  own (\<open>work_wake\<close>), which adds executions where another thread moves in between and
  removes none.\<close>

definition work_done :: "nat \<Rightarrow> 'j system \<Rightarrow> 'j system outcome" where
  "work_done t s =
     (if t < length (threads s) then
        (case threads s ! t of
           Executing job \<Rightarrow>
             Done (s\<lparr>p_num_jobs := p_num_jobs s - 1,
                     threads := (threads s)[t := Waiting],
                     finished := finished s @ [job]\<rparr>)
         | _ \<Rightarrow> Blocked)
      else Blocked)"

subsection \<open>Executions\<close>

text \<open>The atomic steps. \<open>finish()\<close> is \<open>Wait\<close>, \<open>Terminate_flag\<close>, \<open>Terminate_join\<close>;
  \<open>terminate()\<close> and the destructor are \<open>Terminate_flag\<close>, \<open>Terminate_join\<close>.\<close>

datatype 'j event =
    Start uint32
  | Enqueue 'j
  | Wait
  | Terminate_flag
  | Terminate_join
  | Work_wake nat
  | Work_done nat

fun step :: "'j event \<Rightarrow> 'j system \<Rightarrow> 'j system outcome" where
  "step (Start n) s = Done (start n s)"
| "step (Enqueue job) s = Done (enqueue_job job s)"
| "step Wait s = wait s"
| "step Terminate_flag s = Done (terminate_flag s)"
| "step Terminate_join s = terminate_join s"
| "step (Work_wake t) s = work_wake t s"
| "step (Work_done t) s = work_done t s"

fun run :: "'j event list \<Rightarrow> 'j system \<Rightarrow> 'j system outcome" where
  "run [] s = Done s"
| "run (e # es) s =
     (case step e s of
        Done s' \<Rightarrow> run es s'
      | Blocked \<Rightarrow> Blocked
      | Failed err \<Rightarrow> Failed err)"

text \<open>The number of jobs that have been taken from the queue and whose \<open>job()\<close> call
  has not returned yet.\<close>

fun is_executing :: "'j worker \<Rightarrow> bool" where
  "is_executing (Executing _) = True"
| "is_executing _ = False"

definition mid_execution :: "'j system \<Rightarrow> nat" where
  "mid_execution s = length (filter is_executing (threads s))"

subsection \<open>\<open>run_in_parallel\<close>\<close>

text \<open>What the calling thread does, in order: it invokes \<open>func\<close> on the element at an
  index itself, it enqueues the job of a chunk \<open>(idx_begin, idx_end)\<close> (the job invokes
  \<open>func\<close> on \<open>begin + idx_begin\<close> up to \<open>begin + idx_end\<close>, exclusive), or it calls
  \<open>pool.wait()\<close>.\<close>

datatype call = Invoke nat | Enqueue_job "uint64 \<times> uint64" | Wait_pool

text \<open>The loop \<open>while (idx_begin != range_size)\<close>. It compares with \<open>!=\<close> on wrapping
  64-bit values, so its termination is a property to prove: \<open>None\<close> is a loop that never
  ends.\<close>

partial_function (option) split_range ::
  "uint64 \<Rightarrow> uint64 \<Rightarrow> uint64 \<Rightarrow> uint64 \<Rightarrow> call list \<Rightarrow> call list option" where
  "split_range chunk_size range_size idx_begin idx_end calls =
     (if idx_begin \<noteq> range_size
      then split_range chunk_size range_size idx_end
             (min (idx_end + chunk_size) range_size)
             (calls @ [Enqueue_job (idx_begin, idx_end)])
      else Some calls)"

text \<open>The chunk size after \<open>if (chunk_size < min_chunk_size) chunk_size = min_chunk_size\<close>.
  (The source also reassigns \<open>num_chunks\<close> there and never reads it again.)\<close>

definition clamp_chunk_size :: "uint64 \<Rightarrow> uint64 \<Rightarrow> uint64" where
  "clamp_chunk_size chunk_size min_chunk_size =
     (if chunk_size < min_chunk_size then min_chunk_size else chunk_size)"

text \<open>\<open>run_in_parallel(pool, begin, end, func, schedule_factor, min_chunk_size)\<close> on a
  range of \<open>n\<close> elements. \<open>std::distance\<close> is converted to \<open>uint64\<close>, and
  \<open>pool.num_workers()\<close> is promoted from \<open>uint32\<close> to \<open>uint64\<close> in the product.\<close>

definition run_in_parallel ::
  "'j system \<Rightarrow> nat \<Rightarrow> uint64 \<Rightarrow> uint64 \<Rightarrow> (error + call list) option" where
  "run_in_parallel pool n schedule_factor min_chunk_size =
     (if \<not> (schedule_factor \<noteq> 0 \<and> min_chunk_size \<noteq> 0) then Some (Inl AssertionFailure)
      else
        let range_size = (of_nat n :: uint64) in
        if range_size = 0 then Some (Inr [])
        else
          let num_chunks = schedule_factor * ucast (num_workers pool) in
          if num_chunks = 0 then Some (Inl DivisionByZero)
          else
            let chunk_size = clamp_chunk_size (range_size div num_chunks) min_chunk_size in
            if range_size \<le> chunk_size then Some (Inr (map Invoke [0 ..< n]))
            else
              map_option (\<lambda>calls. Inr (calls @ [Wait_pool]))
                (split_range chunk_size range_size 0 chunk_size []))"

text \<open>The overload without the two tuning parameters:
  \<open>run_in_parallel(pool, begin, end, func, 1, 1)\<close>.\<close>

definition run_in_parallel_default :: "'j system \<Rightarrow> nat \<Rightarrow> (error + call list) option" where
  "run_in_parallel_default pool n = run_in_parallel pool n 1 1"

text \<open>The two intermediate values of \<open>run_in_parallel\<close>, named for the statements
  below: \<open>num_chunks\<close> as first assigned, and \<open>chunk_size\<close> after the adjustment.\<close>

abbreviation num_chunks :: "'j system \<Rightarrow> uint64 \<Rightarrow> uint64" where
  "num_chunks pool schedule_factor \<equiv> schedule_factor * ucast (num_workers pool)"

abbreviation chunk_size :: "'j system \<Rightarrow> nat \<Rightarrow> uint64 \<Rightarrow> uint64 \<Rightarrow> uint64" where
  "chunk_size pool n schedule_factor min_chunk_size \<equiv>
     clamp_chunk_size (of_nat n div num_chunks pool schedule_factor) min_chunk_size"

text \<open>What the job of a chunk does: \<open>while (it != it_end) { std::invoke(func, *it++); }\<close>
  from \<open>begin + idx_begin\<close> to \<open>begin + idx_end\<close> visits these indices, in this order.\<close>

fun chunk_indices :: "uint64 \<times> uint64 \<Rightarrow> nat list" where
  "chunk_indices (idx_begin, idx_end) = [unat idx_begin ..< unat idx_end]"

fun chunk_length :: "uint64 \<times> uint64 \<Rightarrow> nat" where
  "chunk_length (idx_begin, idx_end) = unat idx_end - unat idx_begin"

subsection \<open>The partition as the specification words it\<close>

text \<open>Written from the specification, to compare with the loop of the source: the range
  \<open>[0, n)\<close> is cut into contiguous half-open chunks of length \<open>c\<close>, the final chunk
  truncated to whatever remains. Chunk \<open>k\<close> is \<open>[k * c, min ((k + 1) * c) n)\<close>, and
  there are \<open>n / c\<close> chunks, rounded up.\<close>

definition spec_chunk_count :: "nat \<Rightarrow> nat \<Rightarrow> nat" where
  "spec_chunk_count c n = (n + c - 1) div c"

definition spec_chunk :: "nat \<Rightarrow> nat \<Rightarrow> nat \<Rightarrow> uint64 \<times> uint64" where
  "spec_chunk c n k = (of_nat (k * c), of_nat (min (Suc k * c) n))"

definition spec_chunks :: "nat \<Rightarrow> nat \<Rightarrow> (uint64 \<times> uint64) list" where
  "spec_chunks c n = map (spec_chunk c n) [0 ..< spec_chunk_count c n]"

subsection \<open>Predicates on executions\<close>

text \<open>The counter agrees with the queue and the threads: \<open>_num_jobs\<close> is the length of
  the queue plus the number of jobs in execution, as a \<open>uint32\<close>.\<close>

definition counted :: "'j system \<Rightarrow> bool" where
  "counted s \<longleftrightarrow> p_num_jobs s = of_nat (length (p_job_queue s) + mid_execution s)"

text \<open>The steps that neither start the pool again nor submit a job.\<close>

fun no_submission :: "'j event \<Rightarrow> bool" where
  "no_submission (Start _) = False"
| "no_submission (Enqueue _) = False"
| "no_submission _ = True"

text \<open>What holds of a later state \<open>s'\<close> once \<open>terminate\<close> has cleared \<open>_running\<close> in
  \<open>s\<close>: the flag stays clear, the queue is the one of \<open>s\<close>, and a thread executes a job
  only if it was already executing it in \<open>s\<close>.\<close>

definition draining_from :: "'j system \<Rightarrow> 'j system \<Rightarrow> bool" where
  "draining_from s s' \<longleftrightarrow>
     \<not> p_running s' \<and> p_job_queue s' = p_job_queue s
     \<and> length (threads s') = length (threads s)
     \<and> mid_execution s' \<le> mid_execution s
     \<and> (\<forall>t j. t < length (threads s') \<and> threads s' ! t = Executing j
            \<longrightarrow> threads s ! t = Executing j)"

section \<open>Counting the threads that execute a job\<close>

lemma count_list_update:
  "t < length xs \<Longrightarrow>
     length (filter P (xs[t := y])) + (if P (xs ! t) then 1 else 0)
       = length (filter P xs) + (if P y then 1 else 0)"
proof (induction xs arbitrary: t)
  case Nil
  then show ?case by simp
next
  case (Cons x xs)
  show ?case
  proof (cases t)
    case 0
    then show ?thesis by simp
  next
    case (Suc t')
    with Cons.prems have "t' < length xs" by simp
    from Cons.IH [OF this] Suc show ?thesis by simp
  qed
qed

lemma replicate_two: "replicate 2 x = [x, x]"
  by (simp add: numeral_2_eq_2)

lemma mid_execution_start [simp]: "mid_execution (start n s) = mid_execution s"
  by (simp add: mid_execution_def start_def)

lemma mid_execution_take_job:
  "t < length (threads s) \<Longrightarrow> threads s ! t = Waiting \<Longrightarrow>
     mid_execution (s\<lparr>p_job_queue := q, threads := (threads s)[t := Executing job]\<rparr>)
       = Suc (mid_execution s)"
  using count_list_update [of t "threads s" is_executing "Executing job"]
  by (simp add: mid_execution_def)

lemma mid_execution_exit:
  "t < length (threads s) \<Longrightarrow> threads s ! t = Waiting \<Longrightarrow>
     mid_execution (s\<lparr>threads := (threads s)[t := Exited]\<rparr>) = mid_execution s"
  using count_list_update [of t "threads s" is_executing "Exited"]
  by (simp add: mid_execution_def)

lemma mid_execution_return:
  "t < length (threads s) \<Longrightarrow> threads s ! t = Executing job \<Longrightarrow>
     Suc (mid_execution (s\<lparr>p_num_jobs := c, threads := (threads s)[t := Waiting],
                          finished := f\<rparr>)) = mid_execution s"
  using count_list_update [of t "threads s" is_executing "Waiting"]
  by (simp add: mid_execution_def)

section \<open>The outstanding-job counter\<close>

lemma counted_step: "counted s \<Longrightarrow> step e s = Done s' \<Longrightarrow> counted s'"
proof (cases e)
  case (Start n)
  assume "counted s" "step e s = Done s'"
  with Start show ?thesis by (auto simp: counted_def start_def mid_execution_def)
next
  case (Enqueue j)
  assume "counted s" "step e s = Done s'"
  with Enqueue show ?thesis by (auto simp: counted_def enqueue_job_def mid_execution_def)
next
  case Wait
  assume "counted s" "step e s = Done s'"
  with Wait show ?thesis by (auto simp: wait_def split: if_splits)
next
  case Terminate_flag
  assume "counted s" "step e s = Done s'"
  with Terminate_flag show ?thesis by (auto simp: counted_def terminate_flag_def mid_execution_def)
next
  case Terminate_join
  assume "counted s" "step e s = Done s'"
  with Terminate_join show ?thesis
    by (auto simp: counted_def terminate_join_def mid_execution_def split: outcome.splits)
next
  case (Work_wake t)
  assume c: "counted s" and st: "step e s = Done s'"
  show ?thesis
  proof (cases "p_running s")
    case True
    with st Work_wake obtain job q where
      q: "p_job_queue s = job # q" and t: "t < length (threads s)" "threads s ! t = Waiting"
      and s': "s' = s\<lparr>p_job_queue := q, threads := (threads s)[t := Executing job]\<rparr>"
      by (auto simp: work_wake_def split: if_splits list.splits)
    from mid_execution_take_job [OF t, where q = q and job = job] c q show ?thesis
      by (simp add: counted_def s')
  next
    case False
    with st Work_wake have t: "t < length (threads s)" "threads s ! t = Waiting"
      and s': "s' = s\<lparr>threads := (threads s)[t := Exited]\<rparr>"
      by (auto simp: work_wake_def split: if_splits)
    from mid_execution_exit [OF t] c show ?thesis
      by (simp add: counted_def s')
  qed
next
  case (Work_done t)
  assume c: "counted s" and st: "step e s = Done s'"
  with Work_done obtain job where t: "t < length (threads s)" "threads s ! t = Executing job"
    and s': "s' = s\<lparr>p_num_jobs := p_num_jobs s - 1, threads := (threads s)[t := Waiting],
                     finished := finished s @ [job]\<rparr>"
    by (auto simp: work_done_def split: if_splits worker.splits)
  from mid_execution_return [OF t, where c = "p_num_jobs s - 1" and f = "finished s @ [job]"]
  have m: "mid_execution s = Suc (mid_execution s')"
    by (simp add: s')
  have "p_num_jobs s' = p_num_jobs s - 1" and "p_job_queue s' = p_job_queue s"
    by (simp_all add: s')
  with c m show ?thesis
    by (simp add: counted_def)
qed

lemma counted_run: "counted s \<Longrightarrow> run tr s = Done s' \<Longrightarrow> counted s'"
proof (induction tr arbitrary: s)
  case Nil
  then show ?case by simp
next
  case (Cons e tr)
  then show ?case
    by (auto split: outcome.splits dest: counted_step)
qed

lemma counted_init: "counted init"
  by (simp add: counted_def init_def mid_execution_def)

section \<open>After \<open>terminate\<close> has cleared the flag\<close>

lemma draining_from_flag: "draining_from s (terminate_flag s)"
  by (simp add: draining_from_def terminate_flag_def mid_execution_def)

lemma draining_from_step:
  assumes d: "draining_from s s1" and e: "no_submission e" and st: "step e s1 = Done s2"
  shows "draining_from s s2"
proof (cases e)
  case (Start n)
  with e show ?thesis by simp
next
  case (Enqueue j)
  with e show ?thesis by simp
next
  case Wait
  with st d show ?thesis by (auto simp: wait_def split: if_splits)
next
  case Terminate_flag
  with st d show ?thesis by (auto simp: draining_from_def terminate_flag_def mid_execution_def)
next
  case Terminate_join
  with st d show ?thesis
    by (auto simp: draining_from_def terminate_join_def mid_execution_def split: outcome.splits)
next
  case (Work_wake t)
  from d have "\<not> p_running s1" by (simp add: draining_from_def)
  with st Work_wake have t: "t < length (threads s1)" "threads s1 ! t = Waiting"
    and s2: "s2 = s1\<lparr>threads := (threads s1)[t := Exited]\<rparr>"
    by (auto simp: work_wake_def split: if_splits)
  from mid_execution_exit [OF t] have m: "mid_execution s2 = mid_execution s1"
    by (simp add: s2)
  have keep: "threads s1 ! u = Executing j"
    if "u < length (threads s1)" and "threads s2 ! u = Executing j" for u j
    using that t by (cases "u = t") (simp_all add: s2)
  have same: "p_running s2 = p_running s1" "p_job_queue s2 = p_job_queue s1"
    "length (threads s2) = length (threads s1)"
    by (simp_all add: s2)
  from d m same keep show ?thesis
    unfolding draining_from_def by metis
next
  case (Work_done t)
  with st obtain job where t: "t < length (threads s1)" "threads s1 ! t = Executing job"
    and s2: "s2 = s1\<lparr>p_num_jobs := p_num_jobs s1 - 1, threads := (threads s1)[t := Waiting],
                     finished := finished s1 @ [job]\<rparr>"
    by (auto simp: work_done_def split: if_splits worker.splits)
  from mid_execution_return [OF t, where c = "p_num_jobs s1 - 1" and f = "finished s1 @ [job]"]
  have m: "mid_execution s2 \<le> mid_execution s1"
    by (simp add: s2)
  have keep: "threads s1 ! u = Executing j"
    if "u < length (threads s1)" and "threads s2 ! u = Executing j" for u j
    using that t by (cases "u = t") (simp_all add: s2)
  have same: "p_running s2 = p_running s1" "p_job_queue s2 = p_job_queue s1"
    "length (threads s2) = length (threads s1)"
    by (simp_all add: s2)
  from d m same keep show ?thesis
    unfolding draining_from_def by (metis le_trans)
qed

lemma draining_from_run:
  "draining_from s s1 \<Longrightarrow> list_all no_submission tr \<Longrightarrow> run tr s1 = Done s2
     \<Longrightarrow> draining_from s s2"
proof (induction tr arbitrary: s1)
  case Nil
  then show ?case by simp
next
  case (Cons e tr)
  then show ?case
    by (auto split: outcome.splits dest: draining_from_step)
qed

lemma counted_nonzero:
  assumes "counted s" and "p_job_queue s \<noteq> []"
    and "length (p_job_queue s) + mid_execution s < 2 ^ 32"
  shows "p_num_jobs s \<noteq> 0"
proof -
  from assms(2) have "0 < length (p_job_queue s) + mid_execution s" by simp
  from of_nat_neq_0 [OF this, where 'a = 32] assms(1,3) show ?thesis
    by (simp add: counted_def)
qed

section \<open>The claims about the pool\<close>

text \<open>
  Claim C5. In every state that an execution reaches from the constructed pool, through
  any steps of the caller and of the workers, \<open>_num_jobs\<close> is the length of the queue plus
  the number of jobs in execution (as a \<open>uint32\<close>; as a number whenever fewer than
  \<open>2^32\<close> jobs are outstanding). \<open>enqueue_job\<close> pushes one job and adds one to the counter;
  a worker that takes a job leaves the counter as it is, moving the job from the queue to
  the jobs in execution; a worker whose job has returned subtracts one.
\<close>

theorem outstanding_counter_invariant:
  assumes reach: "run tr init = Done s"
  shows "p_num_jobs s = of_nat (length (p_job_queue s) + mid_execution s)
    \<and> (length (p_job_queue s) + mid_execution s < 2 ^ 32
         \<longrightarrow> unat (p_num_jobs s) = length (p_job_queue s) + mid_execution s)
    \<and> p_num_jobs (enqueue_job job s) = p_num_jobs s + 1
    \<and> p_job_queue (enqueue_job job s) = p_job_queue s @ [job]
    \<and> (\<forall>t s'. p_running s \<and> work_wake t s = Done s'
         \<longrightarrow> p_num_jobs s' = p_num_jobs s
           \<and> Suc (length (p_job_queue s')) = length (p_job_queue s)
           \<and> mid_execution s' = Suc (mid_execution s))
    \<and> (\<forall>t s'. work_done t s = Done s'
         \<longrightarrow> p_num_jobs s' = p_num_jobs s - 1
           \<and> p_job_queue s' = p_job_queue s
           \<and> Suc (mid_execution s') = mid_execution s)"
proof -
  from counted_run [OF counted_init reach]
  have c: "p_num_jobs s = of_nat (length (p_job_queue s) + mid_execution s)"
    by (simp add: counted_def)
  have exact: "unat (p_num_jobs s) = length (p_job_queue s) + mid_execution s"
    if "length (p_job_queue s) + mid_execution s < 2 ^ 32"
    unfolding c unat_of_nat using that by simp
  have enq: "p_num_jobs (enqueue_job job s) = p_num_jobs s + 1"
    "p_job_queue (enqueue_job job s) = p_job_queue s @ [job]"
    by (simp_all add: enqueue_job_def)
  have take: "p_num_jobs s' = p_num_jobs s
      \<and> Suc (length (p_job_queue s')) = length (p_job_queue s)
      \<and> mid_execution s' = Suc (mid_execution s)"
    if "p_running s" and "work_wake t s = Done s'" for t s'
  proof -
    from that obtain j q where q: "p_job_queue s = j # q"
      and t: "t < length (threads s)" "threads s ! t = Waiting"
      and s': "s' = s\<lparr>p_job_queue := q, threads := (threads s)[t := Executing j]\<rparr>"
      by (auto simp: work_wake_def split: if_splits list.splits)
    from mid_execution_take_job [OF t, where q = q and job = j] q show ?thesis
      by (simp add: s')
  qed
  have ret: "p_num_jobs s' = p_num_jobs s - 1 \<and> p_job_queue s' = p_job_queue s
      \<and> Suc (mid_execution s') = mid_execution s"
    if "work_done t s = Done s'" for t s'
  proof -
    from that obtain j where t: "t < length (threads s)" "threads s ! t = Executing j"
      and s': "s' = s\<lparr>p_num_jobs := p_num_jobs s - 1, threads := (threads s)[t := Waiting],
                       finished := finished s @ [j]\<rparr>"
      by (auto simp: work_done_def split: if_splits worker.splits)
    from mid_execution_return [OF t, where c = "p_num_jobs s - 1" and f = "finished s @ [j]"]
    show ?thesis
      by (simp add: s')
  qed
  from c exact enq take ret show ?thesis
    by blast
qed

theorem outstanding_counter_invariant_witness:
  "run [Start 2, Enqueue (1::nat), Enqueue 2, Enqueue 3, Work_wake 0] init
     = Done \<lparr>p_num_workers = 2, p_num_jobs = 3, p_workers = Some [0, 1],
             p_job_queue = [2, 3], p_running = True,
             threads = [Executing 1, Waiting], finished = []\<rparr>
   \<and> unat (3 :: uint32) = length [2 :: nat, 3] + mid_execution
        \<lparr>p_num_workers = 2, p_num_jobs = 3, p_workers = Some [0, 1],
         p_job_queue = [2 :: nat, 3], p_running = True,
         threads = [Executing 1, Waiting], finished = []\<rparr>"
proof -
  have reach: "run [Start 2, Enqueue (1::nat), Enqueue 2, Enqueue 3, Work_wake 0] init
     = Done \<lparr>p_num_workers = 2, p_num_jobs = 3, p_workers = Some [0, 1],
             p_job_queue = [2, 3], p_running = True,
             threads = [Executing 1, Waiting], finished = []\<rparr>"
    by (simp add: init_def start_def enqueue_job_def work_wake_def replicate_two)
  from outstanding_counter_invariant [OF reach] reach show ?thesis
    by (simp add: mid_execution_def)
qed

text \<open>
  Claim C3. Let \<open>terminate\<close> clear \<open>_running\<close> in a reachable state whose queue is not
  empty (with fewer than \<open>2^32\<close> jobs outstanding). Then in every state reached
  afterwards by steps of the workers and of \<open>terminate\<close> itself, the queue is unchanged
  (no queued job is taken), no thread executes a job that it was not already executing,
  the counter is not zero, and \<open>wait\<close> is blocked.
\<close>

theorem terminate_discards_queued_jobs:
  assumes reach: "run tr init = Done s"
    and queued: "p_job_queue s \<noteq> []"
    and bound: "length (p_job_queue s) + mid_execution s < 2 ^ 32"
    and later: "list_all no_submission tr'"
    and run': "run tr' (terminate_flag s) = Done s'"
  shows "p_job_queue s' = p_job_queue s \<and> p_num_jobs s' \<noteq> 0 \<and> wait s' = Blocked
    \<and> (\<forall>t j. t < length (threads s') \<and> threads s' ! t = Executing j
           \<longrightarrow> threads s ! t = Executing j)"
proof -
  from counted_run [OF counted_init reach] have "counted (terminate_flag s)"
    by (simp add: counted_def terminate_flag_def mid_execution_def)
  from counted_run [OF this run'] have c: "counted s'" .
  from draining_from_run [OF draining_from_flag later run'] have d: "draining_from s s'" .
  from d queued bound have "p_job_queue s' \<noteq> []"
    and "length (p_job_queue s') + mid_execution s' < 2 ^ 32"
    by (simp_all add: draining_from_def)
  from counted_nonzero [OF c this] have "p_num_jobs s' \<noteq> 0" .
  with d show ?thesis
    by (simp add: draining_from_def wait_def)
qed

theorem terminate_discards_queued_jobs_witness:
  "run [Start 1, Enqueue (1::nat), Enqueue 2, Work_wake 0] init
     = Done \<lparr>p_num_workers = 1, p_num_jobs = 2, p_workers = Some [0],
             p_job_queue = [2], p_running = True,
             threads = [Executing 1], finished = []\<rparr>
   \<and> run [Work_done 0, Work_wake 0, Terminate_join]
       (terminate_flag \<lparr>p_num_workers = 1, p_num_jobs = 2, p_workers = Some [0],
             p_job_queue = [2 :: nat], p_running = True,
             threads = [Executing 1], finished = []\<rparr>)
     = Done \<lparr>p_num_workers = 1, p_num_jobs = 1, p_workers = None,
             p_job_queue = [2], p_running = False,
             threads = [Exited], finished = [1]\<rparr>
   \<and> wait \<lparr>p_num_workers = 1, p_num_jobs = 1, p_workers = None,
             p_job_queue = [2 :: nat], p_running = False,
             threads = [Exited], finished = [1]\<rparr> = Blocked"
proof -
  let ?s = "\<lparr>p_num_workers = 1, p_num_jobs = 2, p_workers = Some [0],
             p_job_queue = [2 :: nat], p_running = True,
             threads = [Executing 1], finished = []\<rparr>"
  let ?s' = "\<lparr>p_num_workers = 1, p_num_jobs = 1, p_workers = None,
             p_job_queue = [2 :: nat], p_running = False,
             threads = [Exited], finished = [1]\<rparr>"
  have reach: "run [Start 1, Enqueue (1::nat), Enqueue 2, Work_wake 0] init = Done ?s"
    by (simp add: init_def start_def enqueue_job_def work_wake_def)
  have queued: "p_job_queue ?s \<noteq> []"
    by simp
  have bound: "length (p_job_queue ?s) + mid_execution ?s < 2 ^ 32"
    by (simp add: mid_execution_def)
  have later: "list_all no_submission [Work_done 0, Work_wake 0, Terminate_join :: nat event]"
    by simp
  have run': "run [Work_done 0, Work_wake 0, Terminate_join] (terminate_flag ?s) = Done ?s'"
    by (simp add: terminate_flag_def work_done_def work_wake_def terminate_join_def)
  from terminate_discards_queued_jobs [OF reach queued bound later run'] reach run'
  show ?thesis
    by simp
qed

text \<open>
  Claim C1, at the execution where the code leaves it: a pool with two workers and one
  job. The first worker takes the job and runs it; the counter is still 1, so the second
  worker passes its wait with \<open>_running\<close> set and an empty queue, and
  \<open>assert(!_job_queue.empty())\<close> fails.
\<close>

theorem work_loop_assertion_fails:
  "run [Start 2, Enqueue (0::nat), Work_wake 0] init
     = Done \<lparr>p_num_workers = 2, p_num_jobs = 1, p_workers = Some [0, 1],
             p_job_queue = [], p_running = True,
             threads = [Executing 0, Waiting], finished = []\<rparr>
   \<and> step (Work_wake 1) \<lparr>p_num_workers = 2, p_num_jobs = 1, p_workers = Some [0, 1],
             p_job_queue = [] :: nat list, p_running = True,
             threads = [Executing 0, Waiting], finished = []\<rparr>
     = Failed AssertionFailure"
  by (simp add: init_def start_def enqueue_job_def work_wake_def replicate_two)

text \<open>Two facts about \<open>terminate\<close> in every state: it leaves \<open>_num_workers\<close> as it was,
  and with \<open>_workers\<close> null and \<open>_num_workers\<close> not zero its first \<open>join\<close> goes through the
  null pointer.\<close>

lemma terminate_keeps_num_workers:
  "terminate_join (terminate_flag s) = Done s' \<Longrightarrow> num_workers s' = num_workers s"
  by (auto simp: terminate_join_def terminate_flag_def num_workers_def split: outcome.splits)

lemma terminate_join_null:
  assumes "p_workers s = None" and "p_num_workers s \<noteq> 0"
  shows "terminate_join s = Failed NullDereference"
proof -
  from assms(2) have "0 < unat (p_num_workers s)"
    by (simp add: unat_gt_0)
  then have "[0 ..< unat (p_num_workers s)] = 0 # [Suc 0 ..< unat (p_num_workers s)]"
    by (simp add: upt_conv_Cons)
  with assms(1) show ?thesis
    by (simp add: terminate_join_def)
qed

text \<open>
  Claim C4, at the execution where the code leaves it: a pool started with one worker.
  The first \<open>terminate\<close> joins the worker and sets \<open>_workers\<close> to null, \<open>_num_workers\<close> stays
  1, and the second \<open>terminate\<close> (the destructor's, for one) reads \<open>_workers[0]\<close>.
\<close>

theorem second_terminate_fails:
  "run [Start 1, Terminate_flag, Work_wake 0, Terminate_join] init
     = Done \<lparr>p_num_workers = 1, p_num_jobs = 0, p_workers = None,
             p_job_queue = [] :: nat list, p_running = False,
             threads = [Exited], finished = []\<rparr>
   \<and> run [Terminate_flag, Terminate_join]
        \<lparr>p_num_workers = 1, p_num_jobs = 0, p_workers = None,
             p_job_queue = [] :: nat list, p_running = False,
             threads = [Exited], finished = []\<rparr>
     = Failed NullDereference"
  by (simp add: init_def start_def terminate_flag_def work_wake_def terminate_join_def)

text \<open>
  Claim C9, at the scenario: one worker, ten jobs, \<open>wait\<close> returns after all ten have
  run, then \<open>terminate\<close>. The threads are joined and \<open>_workers\<close> is null, and
  \<open>num_workers()\<close> still returns 1.
\<close>

theorem num_workers_after_terminate:
  "map_outcome (\<lambda>s. (num_workers s, p_workers s, threads s, finished s))
     (run [Start 1,
           Enqueue (1::nat), Enqueue 2, Enqueue 3, Enqueue 4, Enqueue 5,
           Enqueue 6, Enqueue 7, Enqueue 8, Enqueue 9, Enqueue 10,
           Work_wake 0, Work_done 0, Work_wake 0, Work_done 0, Work_wake 0, Work_done 0,
           Work_wake 0, Work_done 0, Work_wake 0, Work_done 0, Work_wake 0, Work_done 0,
           Work_wake 0, Work_done 0, Work_wake 0, Work_done 0, Work_wake 0, Work_done 0,
           Work_wake 0, Work_done 0,
           Wait, Terminate_flag, Work_wake 0, Terminate_join] init)
   = Done (1, None, [Exited], [1, 2, 3, 4, 5, 6, 7, 8, 9, 10])"
  by (simp add: init_def start_def enqueue_job_def work_wake_def work_done_def wait_def
      terminate_flag_def terminate_join_def num_workers_def)

section \<open>The loop of \<open>run_in_parallel\<close>\<close>

subsection \<open>Arithmetic\<close>

lemma chunk_index_less:
  fixes k c n :: nat
  assumes "0 < c"
  shows "k < spec_chunk_count c n \<longleftrightarrow> k * c < n"
proof -
  have "k < (n + c - 1) div c \<longleftrightarrow> Suc k \<le> (n + c - 1) div c" by auto
  also have "\<dots> \<longleftrightarrow> Suc k * c \<le> n + c - 1"
    using assms by (simp add: less_eq_div_iff_mult_less_eq)
  also have "\<dots> \<longleftrightarrow> k * c < n"
    using assms by auto
  finally show ?thesis
    by (simp add: spec_chunk_count_def)
qed

lemma unat_of_nat64: "x < 2 ^ 64 \<Longrightarrow> unat (of_nat x :: uint64) = x"
  by (simp add: unat_of_nat)

lemma of_nat64_eq_iff:
  "a < 2 ^ 64 \<Longrightarrow> b < 2 ^ 64 \<Longrightarrow> (of_nat a :: uint64) = of_nat b \<longleftrightarrow> a = b"
  by (metis unat_of_nat64)

lemma of_nat64_min:
  "a < 2 ^ 64 \<Longrightarrow> b < 2 ^ 64 \<Longrightarrow> min (of_nat a :: uint64) (of_nat b) = of_nat (min a b)"
  by (simp add: min_def word_le_nat_alt unat_of_nat64)

subsection \<open>The loop builds the chunks of the specification\<close>

lemma split_range_closed_form:
  assumes c: "0 < c" "c < n" and n: "n < 2 ^ 63"
  shows "split_range (of_nat c) (of_nat n) (of_nat (min (k * c) n)) (of_nat (min (Suc k * c) n)) calls
     = Some (calls @ map (\<lambda>i. Enqueue_job (spec_chunk c n i)) [k ..< spec_chunk_count c n])"
proof (induction "spec_chunk_count c n - k" arbitrary: k calls)
  case 0
  then have "\<not> k < spec_chunk_count c n" by simp
  with c(1) have "n \<le> k * c" by (simp add: chunk_index_less)
  then have "min (k * c) n = n" by simp
  moreover from 0 have "[k ..< spec_chunk_count c n] = []" by simp
  ultimately show ?case
    by (simp add: split_range.simps)
next
  case (Suc d)
  let ?m = "spec_chunk_count c n"
  from Suc.hyps(2) have k: "k < ?m" by simp
  with c(1) have kc: "k * c < n" by (simp add: chunk_index_less)
  from n have n64: "n < 2 ^ 64" by (simp add: order_less_trans [OF n])
  have ne: "(of_nat (min (k * c) n) :: uint64) \<noteq> of_nat n"
  proof
    assume "(of_nat (min (k * c) n) :: uint64) = of_nat n"
    then have "unat (of_nat (min (k * c) n) :: uint64) = unat (of_nat n :: uint64)"
      by (rule arg_cong)
    with kc n64 show False
      by (simp add: unat_of_nat64 del: of_nat_mult)
  qed
  let ?e = "min (Suc k * c) n"
  have e: "?e \<le> n" by simp
  from e c(2) n have ec: "?e + c < 2 ^ 64" by simp
  have nxt: "min ((of_nat ?e :: uint64) + of_nat c) (of_nat n) = of_nat (min (Suc (Suc k) * c) n)"
  proof -
    have "(of_nat ?e :: uint64) + of_nat c = of_nat (?e + c)" by simp
    also have "min \<dots> (of_nat n) = of_nat (min (?e + c) n)"
      using ec n64 by (rule of_nat64_min)
    also have "min (?e + c) n = min (Suc (Suc k) * c) n" by (simp add: min_def)
    finally show ?thesis .
  qed
  from Suc.hyps(2) have d: "d = ?m - Suc k" by simp
  have "split_range (of_nat c) (of_nat n) (of_nat (min (k * c) n)) (of_nat ?e) calls
      = split_range (of_nat c) (of_nat n) (of_nat ?e) (of_nat (min (Suc (Suc k) * c) n))
          (calls @ [Enqueue_job (of_nat (min (k * c) n), of_nat ?e)])"
    by (subst split_range.simps) (simp only: ne nxt if_True not_False_eq_True)
  also have "\<dots> = Some ((calls @ [Enqueue_job (of_nat (min (k * c) n), of_nat ?e)])
      @ map (\<lambda>i. Enqueue_job (spec_chunk c n i)) [Suc k ..< ?m])"
    by (rule Suc.hyps(1) [OF d])
  finally have "split_range (of_nat c) (of_nat n) (of_nat (min (k * c) n)) (of_nat ?e) calls
      = Some ((calls @ [Enqueue_job (of_nat (min (k * c) n), of_nat ?e)])
          @ map (\<lambda>i. Enqueue_job (spec_chunk c n i)) [Suc k ..< ?m])" .
  moreover from kc have "min (k * c) n = k * c" by simp
  ultimately show ?case
    using k by (simp add: upt_conv_Cons spec_chunk_def)
qed

subsection \<open>The chunks cover the range\<close>

lemma length_spec_chunks [simp]: "length (spec_chunks c n) = spec_chunk_count c n"
  by (simp add: spec_chunks_def)

lemma nth_spec_chunks:
  "i < spec_chunk_count c n \<Longrightarrow> spec_chunks c n ! i = spec_chunk c n i"
  by (simp add: spec_chunks_def)

lemma unat_spec_chunk:
  assumes "0 < c" and "n < 2 ^ 64" and "i < spec_chunk_count c n"
  shows "spec_chunk c n i = (b, e) \<Longrightarrow> unat b = i * c \<and> unat e = min (Suc i * c) n"
proof -
  assume be: "spec_chunk c n i = (b, e)"
  from assms have "i * c < n" by (simp add: chunk_index_less)
  with assms(2) have "i * c < 2 ^ 64" by simp
  moreover from assms(2) have "min (Suc i * c) n < 2 ^ 64" by simp
  ultimately show ?thesis
    using be unat_of_nat64 [of "i * c"] unat_of_nat64 [of "min (Suc i * c) n"]
    by (auto simp: spec_chunk_def simp del: of_nat_mult of_nat_add mult_Suc)
qed

lemma chunk_indices_spec_chunk:
  assumes "0 < c" and "n < 2 ^ 64" and "i < spec_chunk_count c n"
  shows "chunk_indices (spec_chunk c n i) = [i * c ..< min (Suc i * c) n]"
proof -
  obtain b e where be: "spec_chunk c n i = (b, e)" by (cases "spec_chunk c n i")
  from unat_spec_chunk [OF assms be] show ?thesis by (simp add: be)
qed

lemma chunk_length_spec_chunk:
  assumes "0 < c" and "n < 2 ^ 64" and "i < spec_chunk_count c n"
  shows "chunk_length (spec_chunk c n i) = min (Suc i * c) n - i * c"
proof -
  obtain b e where be: "spec_chunk c n i = (b, e)" by (cases "spec_chunk c n i")
  from unat_spec_chunk [OF assms be] show ?thesis by (simp add: be)
qed

lemma upt_split: "a \<le> b \<Longrightarrow> b \<le> c \<Longrightarrow> [a ..< b] @ [b ..< c] = [a ..< c]"
  using upt_add_eq_append [of a b "c - b"] by simp

lemma concat_chunks_upto:
  assumes "0 < c" and "n < 2 ^ 64"
  shows "k \<le> spec_chunk_count c n \<Longrightarrow>
    concat (map (\<lambda>i. chunk_indices (spec_chunk c n i)) [0 ..< k]) = [0 ..< min (k * c) n]"
proof (induction k)
  case 0
  then show ?case by simp
next
  case (Suc k)
  then have k: "k < spec_chunk_count c n" by simp
  with assms(1) have "k * c < n" by (simp add: chunk_index_less)
  then have "min (k * c) n = k * c" and le: "k * c \<le> min (Suc k * c) n" by simp_all
  with Suc chunk_indices_spec_chunk [OF assms k]
  have "concat (map (\<lambda>i. chunk_indices (spec_chunk c n i)) [0 ..< Suc k])
      = [0 ..< k * c] @ [k * c ..< min (Suc k * c) n]"
    by simp
  also from le have "\<dots> = [0 ..< min (Suc k * c) n]"
    by (simp add: upt_split)
  finally show ?case .
qed

lemma concat_spec_chunks:
  assumes "0 < c" and "n < 2 ^ 64"
  shows "concat (map chunk_indices (spec_chunks c n)) = [0 ..< n]"
proof -
  from chunk_index_less [OF assms(1), of "spec_chunk_count c n" n]
  have "n \<le> spec_chunk_count c n * c" by simp
  then have "min (spec_chunk_count c n * c) n = n" by simp
  with concat_chunks_upto [OF assms, of "spec_chunk_count c n"] show ?thesis
    by (simp add: spec_chunks_def comp_def)
qed


lemma clamp_chunk_size_pos: "min_chunk_size \<noteq> 0 \<Longrightarrow> 0 < unat (clamp_chunk_size x min_chunk_size)"
  by (auto simp: clamp_chunk_size_def word_less_nat_alt unat_gt_0 [symmetric])

lemma unat_clamp_chunk_size:
  "unat (clamp_chunk_size x min_chunk_size) = max (unat x) (unat min_chunk_size)"
  by (auto simp: clamp_chunk_size_def word_less_nat_alt)

lemma split_range_from_zero:
  assumes "0 < unat cs" and "unat cs < n" and "n < 2 ^ 63"
  shows "split_range cs (of_nat n) 0 cs []
    = Some (map Enqueue_job (spec_chunks (unat cs) n))"
proof -
  from assms(2) have "min (Suc 0 * unat cs) n = unat cs" by simp
  with split_range_closed_form [OF assms, of 0 "[]"] show ?thesis
    by (simp add: spec_chunks_def)
qed
lemma partition_properties:
  assumes sf: "schedule_factor \<noteq> 0" and mcs: "min_chunk_size \<noteq> 0"
    and n: "n < 2 ^ 63"
    and nc: "num_chunks pool schedule_factor \<noteq> 0"
    and big: "chunk_size pool n schedule_factor min_chunk_size < of_nat n"
    and c: "c = unat (chunk_size pool n schedule_factor min_chunk_size)"
    and chunks: "chunks = spec_chunks c n"
  shows "run_in_parallel pool n schedule_factor min_chunk_size
      = Some (Inr (map Enqueue_job chunks @ [Wait_pool]))
    \<and> c = max (n div unat (num_chunks pool schedule_factor)) (unat min_chunk_size)
    \<and> chunks \<noteq> []
    \<and> concat (map chunk_indices chunks) = [0 ..< n]
    \<and> (\<forall>i. Suc i < length chunks \<longrightarrow> chunk_length (chunks ! i) = c)
    \<and> (\<forall>i. i < length chunks \<longrightarrow> unat (fst (chunks ! i)) = i * c)
    \<and> (\<forall>i. Suc i < length chunks \<longrightarrow> fst (chunks ! Suc i) = snd (chunks ! i))
    \<and> unat (snd (last chunks)) = n
    \<and> chunk_length (last chunks) = n - unat (fst (last chunks))
    \<and> 0 < chunk_length (last chunks) \<and> chunk_length (last chunks) \<le> c"
proof -
  let ?cs = "chunk_size pool n schedule_factor min_chunk_size"
  let ?m = "spec_chunk_count c n"
  from n have n64: "n < 2 ^ 64" by (simp add: order_less_trans [OF n])
  have pos: "0 < c"
    unfolding c using mcs by (rule clamp_chunk_size_pos)
  from big have "unat ?cs < unat (of_nat n :: uint64)" by (simp add: word_less_nat_alt)
  with n64 have less: "c < n" by (simp add: c unat_of_nat64)
  from pos less have m: "0 < ?m" using chunk_index_less [OF pos, of 0 n] by simp
  have len: "length chunks = ?m" by (simp add: chunks)
  have nth: "chunks ! i = spec_chunk c n i" if "i < ?m" for i
    using that by (simp add: chunks nth_spec_chunks)
  have covers: "n \<le> ?m * c"
    using chunk_index_less [OF pos, of ?m n] by simp
  from m obtain k where mk: "?m = Suc k" by (cases ?m) auto
  have last_eq: "last chunks = spec_chunk c n k"
    by (simp add: chunks spec_chunks_def last_map mk)
  have r: "run_in_parallel pool n schedule_factor min_chunk_size
      = Some (Inr (map Enqueue_job chunks @ [Wait_pool]))"
  proof -
    from big have "(of_nat n :: uint64) \<noteq> 0" and "\<not> of_nat n \<le> ?cs" by auto
    moreover from split_range_from_zero [of ?cs n] pos less n
    have "split_range ?cs (of_nat n) 0 ?cs [] = Some (map Enqueue_job chunks)"
      by (simp add: c chunks)
    ultimately show ?thesis
      using sf mcs nc by (simp add: run_in_parallel_def)
  qed
  have size: "c = max (n div unat (num_chunks pool schedule_factor)) (unat min_chunk_size)"
    using n64 by (simp add: c unat_clamp_chunk_size unat_div unat_of_nat64)
  have ne: "chunks \<noteq> []"
    using m len by auto
  have cover: "concat (map chunk_indices chunks) = [0 ..< n]"
    unfolding chunks using pos n64 by (rule concat_spec_chunks)
  have full: "chunk_length (chunks ! i) = c" if "Suc i < length chunks" for i
  proof -
    from that len have i: "i < ?m" and "Suc i < ?m" by simp_all
    with pos have "Suc i * c < n" by (simp add: chunk_index_less)
    with chunk_length_spec_chunk [OF pos n64 i] nth [OF i] show ?thesis by simp
  qed
  have begins: "unat (fst (chunks ! i)) = i * c" if "i < length chunks" for i
  proof -
    from that len have i: "i < ?m" by simp
    obtain b e where be: "spec_chunk c n i = (b, e)" by (cases "spec_chunk c n i")
    from unat_spec_chunk [OF pos n64 i be] nth [OF i] be show ?thesis by simp
  qed
  have contiguous: "fst (chunks ! Suc i) = snd (chunks ! i)" if "Suc i < length chunks" for i
  proof -
    from that len have i: "i < ?m" and si: "Suc i < ?m" by simp_all
    with pos have "Suc i * c < n" by (simp add: chunk_index_less)
    then have "min (Suc i * c) n = Suc i * c" by simp
    with nth [OF i] nth [OF si] show ?thesis by (simp add: spec_chunk_def)
  qed
  obtain b e where be: "spec_chunk c n k = (b, e)" by (cases "spec_chunk c n k")
  from mk have k: "k < ?m" by simp
  from unat_spec_chunk [OF pos n64 k be] covers
  have b: "unat b = k * c" and e: "unat e = n" by (simp_all add: mk)
  from k pos have bn: "k * c < n" by (simp add: chunk_index_less)
  from covers have "n \<le> k * c + c" by (simp add: mk)
  with b e bn have final: "unat (snd (last chunks)) = n"
    "chunk_length (last chunks) = n - unat (fst (last chunks))"
    "0 < chunk_length (last chunks)" "chunk_length (last chunks) \<le> c"
    by (simp_all add: last_eq be)
  from r size ne cover full begins contiguous final show ?thesis
    by blast
qed

section \<open>The claims about \<open>run_in_parallel\<close>\<close>

text \<open>
  Claim C6. Let the assertion pass, the range have fewer than \<open>2^63\<close> elements (its
  size is a \<open>std::distance\<close>), the product \<open>schedule_factor * pool.num_workers()\<close> be
  non-zero as a \<open>uint64\<close>, and \<open>range_size > chunk_size\<close>. Then \<open>chunk_size\<close> is
  \<open>range_size / num_chunks\<close> by integer division, raised to \<open>min_chunk_size\<close> when
  smaller; the loop ends; the calling thread enqueues one job for each chunk of the
  specification's partition, in order, and then waits. Every chunk but the last has
  exactly \<open>chunk_size\<close> elements, chunk \<open>i\<close> begins at \<open>i * chunk_size\<close> where chunk
  \<open>i - 1\<close> ends, and the last chunk ends at \<open>range_size\<close> with \<open>range_size - last_begin\<close>
  elements, at least one and at most \<open>chunk_size\<close>. The indices of the chunks, one chunk
  after the other, are exactly \<open>0, 1, \<dots>, range_size - 1\<close>: the chunks are disjoint and
  cover the range.
\<close>

theorem chunked_partition:
  assumes "schedule_factor \<noteq> 0" and "min_chunk_size \<noteq> 0"
    and "n < 2 ^ 63"
    and "num_chunks pool schedule_factor \<noteq> 0"
    and "chunk_size pool n schedule_factor min_chunk_size < of_nat n"
  shows "let c = unat (chunk_size pool n schedule_factor min_chunk_size);
             chunks = spec_chunks c n
         in c = max (n div unat (num_chunks pool schedule_factor)) (unat min_chunk_size)
          \<and> run_in_parallel pool n schedule_factor min_chunk_size
              = Some (Inr (map Enqueue_job chunks @ [Wait_pool]))
          \<and> chunks \<noteq> []
          \<and> concat (map chunk_indices chunks) = [0 ..< n]
          \<and> (\<forall>i. Suc i < length chunks \<longrightarrow> chunk_length (chunks ! i) = c)
          \<and> (\<forall>i. i < length chunks \<longrightarrow> unat (fst (chunks ! i)) = i * c)
          \<and> (\<forall>i. Suc i < length chunks \<longrightarrow> fst (chunks ! Suc i) = snd (chunks ! i))
          \<and> unat (snd (last chunks)) = n
          \<and> chunk_length (last chunks) = n - unat (fst (last chunks))
          \<and> 0 < chunk_length (last chunks) \<and> chunk_length (last chunks) \<le> c"
  unfolding Let_def using partition_properties [OF assms refl refl] by blast

theorem chunked_partition_witness:
  "run_in_parallel (start 3 (init :: nat system)) 10 1 1
     = Some (Inr [Enqueue_job (0, 3), Enqueue_job (3, 6), Enqueue_job (6, 9),
                  Enqueue_job (9, 10), Wait_pool])
   \<and> concat (map chunk_indices [(0, 3), (3, 6), (6, 9), (9, 10)]) = [0 ..< 10]
   \<and> chunk_length (9, 10) = 10 - unat (9 :: uint64)"
proof -
  let ?pool = "start 3 (init :: nat system)"
  have nw: "num_workers ?pool = 3"
    by (simp add: num_workers_def start_def)
  have cs: "chunk_size ?pool 10 1 1 = 3"
    by (simp add: nw clamp_chunk_size_def word_less_nat_alt)
  have h: "(1 :: uint64) \<noteq> 0" "(10 :: nat) < 2 ^ 63" "num_chunks ?pool 1 \<noteq> 0"
    by (simp_all add: nw)
  have big: "chunk_size ?pool 10 1 1 < of_nat 10"
    unfolding cs by simp
  have chunks: "spec_chunks 3 10 = [(0, 3), (3, 6), (6, 9), (9, 10)]"
    by (simp add: spec_chunks_def spec_chunk_count_def spec_chunk_def upt_rec)
  from chunked_partition [OF h(1) h(1) h(2) h(3) big] show ?thesis
    unfolding cs by (simp add: chunks Let_def)
qed

text \<open>
  Claim C7. When the assertion passes, the range is not empty, the division is defined and
  \<open>range_size <= chunk_size\<close> after the adjustment, the calling thread invokes \<open>func\<close> on
  every element itself, in order, and returns: it enqueues no job and does not call
  \<open>wait\<close>.
\<close>

theorem small_range_runs_on_caller:
  assumes "schedule_factor \<noteq> 0" and "min_chunk_size \<noteq> 0"
    and "(of_nat n :: uint64) \<noteq> 0"
    and "num_chunks pool schedule_factor \<noteq> 0"
    and "of_nat n \<le> chunk_size pool n schedule_factor min_chunk_size"
  shows "run_in_parallel pool n schedule_factor min_chunk_size
    = Some (Inr (map Invoke [0 ..< n]))"
  using assms by (simp add: run_in_parallel_def Let_def)

theorem small_range_runs_on_caller_witness:
  "run_in_parallel (start 4 (init :: nat system)) 3 1 5
     = Some (Inr [Invoke 0, Invoke 1, Invoke 2])"
proof -
  let ?pool = "start 4 (init :: nat system)"
  have nw: "num_workers ?pool = 4"
    by (simp add: num_workers_def start_def)
  have small: "(of_nat 3 :: uint64) \<le> chunk_size ?pool 3 1 5"
    by (simp add: nw clamp_chunk_size_def)
  have "[0 ..< 3] = [0, 1, 2 :: nat]"
    by (simp add: upt_rec)
  with small_range_runs_on_caller [of 1 5 3 ?pool] small show ?thesis
    by (simp add: nw)
qed

text \<open>
  Claim C8. With \<open>schedule_factor = 0\<close> or \<open>min_chunk_size = 0\<close> the call ends in the
  failed assertion, whatever the pool and the range (also the empty range, and a pool
  without workers): nothing is invoked, enqueued or waited for, and no other result is
  returned.
\<close>

theorem zero_parameter_fails_assertion:
  assumes "schedule_factor = 0 \<or> min_chunk_size = 0"
  shows "run_in_parallel pool n schedule_factor min_chunk_size = Some (Inl AssertionFailure)"
  using assms by (auto simp: run_in_parallel_def)

theorem zero_parameter_fails_assertion_witness:
  "run_in_parallel (start 4 (init :: nat system)) 1000 0 1 = Some (Inl AssertionFailure)
   \<and> run_in_parallel (init :: nat system) 0 1 0 = Some (Inl AssertionFailure)"
  using zero_parameter_fails_assertion [of 0 1 "start 4 (init :: nat system)" 1000]
    zero_parameter_fails_assertion [of 1 0 "init :: nat system" 0]
  by simp

text \<open>
  Claim C10. On a pool whose \<open>num_workers()\<close> is zero, a call that passes the assertion
  on a range that is not empty computes \<open>num_chunks = 0\<close> and divides by it. The
  constructed pool and a pool started with zero workers are such pools.
\<close>

theorem zero_workers_division_by_zero:
  assumes "num_workers pool = 0"
    and "schedule_factor \<noteq> 0" and "min_chunk_size \<noteq> 0"
    and "0 < n" and "n < 2 ^ 64"
  shows "run_in_parallel pool n schedule_factor min_chunk_size = Some (Inl DivisionByZero)"
proof -
  from of_nat_neq_0 [OF assms(4), where 'a = 64] assms(5)
  have "(of_nat n :: uint64) \<noteq> 0" by simp
  with assms(1-3) show ?thesis
    by (simp add: run_in_parallel_def)
qed

theorem zero_workers_division_by_zero_witness:
  "num_workers (init :: nat system) = 0
   \<and> num_workers (start 0 (init :: nat system)) = 0
   \<and> run_in_parallel (init :: nat system) 1 1 1 = Some (Inl DivisionByZero)
   \<and> run_in_parallel (start 0 (init :: nat system)) 1000 4 16 = Some (Inl DivisionByZero)"
proof -
  have a: "num_workers (init :: nat system) = 0"
    by (simp add: num_workers_def init_def)
  have b: "num_workers (start 0 (init :: nat system)) = 0"
    by (simp add: num_workers_def start_def)
  from zero_workers_division_by_zero [OF a, of 1 1 1]
    zero_workers_division_by_zero [OF b, of 4 16 1000] a b
  show ?thesis by simp
qed

text \<open>The part of the coverage property that holds for every pool: a call that passes
  the assertion on an empty range returns at once, with nothing invoked, enqueued or
  waited for.\<close>

lemma empty_range_returns:
  "schedule_factor \<noteq> 0 \<Longrightarrow> min_chunk_size \<noteq> 0 \<Longrightarrow>
     run_in_parallel pool 0 schedule_factor min_chunk_size = Some (Inr [])"
  by (simp add: run_in_parallel_def)

text \<open>
  Claim C2, at two executions where the code leaves it. On the constructed pool, the
  two-argument overload on a range of one element divides by zero and invokes \<open>func\<close> on
  nothing. On a pool with two workers and a range of two elements, the call enqueues the
  chunks \<open>(0, 1)\<close> and \<open>(1, 2)\<close> and waits; each worker takes one chunk, the first worker
  finishes and passes its wait again because the counter still counts the second
  chunk, and the assertion of \<open>work_loop\<close> fails with the second element in execution.
\<close>

theorem run_in_parallel_failures:
  "run_in_parallel_default (init :: nat system) 1 = Some (Inl DivisionByZero)
   \<and> run_in_parallel_default (start 2 (init :: (uint64 \<times> uint64) system)) 2
       = Some (Inr [Enqueue_job (0, 1), Enqueue_job (1, 2), Wait_pool])
   \<and> run [Start 2, Enqueue (0 :: uint64, 1 :: uint64), Enqueue (1, 2),
           Work_wake 0, Work_wake 1, Work_done 0] init
       = Done \<lparr>p_num_workers = 2, p_num_jobs = 1, p_workers = Some [0, 1],
               p_job_queue = [], p_running = True,
               threads = [Waiting, Executing (1, 2)], finished = [(0, 1)]\<rparr>
   \<and> step Wait \<lparr>p_num_workers = 2, p_num_jobs = 1, p_workers = Some [0, 1],
               p_job_queue = [] :: (uint64 \<times> uint64) list, p_running = True,
               threads = [Waiting, Executing (1, 2)], finished = [(0, 1)]\<rparr> = Blocked
   \<and> step (Work_wake 0) \<lparr>p_num_workers = 2, p_num_jobs = 1, p_workers = Some [0, 1],
               p_job_queue = [] :: (uint64 \<times> uint64) list, p_running = True,
               threads = [Waiting, Executing (1, 2)], finished = [(0, 1)]\<rparr>
       = Failed AssertionFailure"
  by (simp add: run_in_parallel_default_def run_in_parallel_def init_def num_workers_def
      start_def clamp_chunk_size_def split_range.simps word_le_nat_alt
      enqueue_job_def work_wake_def work_done_def wait_def replicate_two)

end
